theory Spec2Isabelle
  imports Main "HOL-Library.Word"
begin

section \<open>The callme client (lib/callme/client.cc)\<close>

text \<open>
  The client keeps one connection to a server. Caller threads obtain a call id, post a
  task that registers a promise under that id and writes the request; one worker thread
  runs \<open>io_.run()\<close>: the connect handler, the read handler and the tasks posted to the
  strand. The development below embeds \<open>client::impl\<close> as a record, every handler and
  every posted lambda as a function on that record, and the io service as an event system
  over these functions.
\<close>

subsection \<open>Data\<close>

text \<open>A \<open>msgpack::sbuffer\<close> and a \<open>msgpack::object_handle\<close> are kept as their bytes.\<close>

type_synonym sbuffer = string
type_synonym object_handle = string

text \<open>\<open>client::connection_state\<close>.\<close>

datatype connection_state = initial | connected | disconnected | reset

text \<open>
  The \<open>std::error_code\<close> a completion handler receives: \<open>!ec\<close>, the two codes the
  read handler compares with, and any other code.
\<close>

datatype error_code = no_error | eof | connection_reset | other_error nat

text \<open>
  The exceptions that occur: the \<open>std::runtime_error\<close> of the read handler, whose
  message is the format string with the error object printed into it; the three
  \<open>std::future_error\<close> conditions of a promise; and whatever the unpacker raises.
\<close>

datatype exn =
    runtime_error string object_handle
  | promise_already_satisfied
  | no_state
  | broken_promise
  | unpack_error string

text \<open>
  A \<open>std::promise<msgpack::object_handle>\<close> refers to a shared state, which the future
  of the waiting caller refers to as well. The shared states live in a store; a promise
  is the index of its shared state.
\<close>

datatype shared_state = not_ready | ready_value object_handle | ready_exception exn

type_synonym promise = nat

text \<open>
  Modelled from the spec: the class \<open>callme::detail::response\<close> (callme/detail/response.h)
  is not among the sources. Following section 4.3 a decoded frame yields a call id, an
  optional error indicator and a result value; the fields are named after the accessors
  that the read handler calls.
\<close>

record response =
  get_id :: "32 word"
  get_error :: "object_handle option"
  get_result :: object_handle

text \<open>
  One turn of the loop condition \<open>pac_.next(&result)\<close> followed by the construction of
  the \<open>response\<close>: either a response is there, or the unpacker (or the conversion) raises.
  That \<open>next\<close> returns \<open>false\<close> is the end of the list of outcomes of one read.
\<close>

datatype unpacked = decoded response | decode_throws exn

text \<open>The three lambdas that are posted to the strand.\<close>

datatype task =
    erase_task "32 word"
  | call_task sbuffer "32 word" promise
  | notify_task sbuffer

text \<open>Where the worker thread is: between two handlers, or inside the loop of the read handler.\<close>

datatype worker_state = idle | in_read_loop "unpacked list"

text \<open>
  \<open>client::impl\<close>. The members keep their names, without the trailing underscore.
  \<open>pac\<close> counts the bytes handed to the unpacker; \<open>writer\<close> lists the buffers handed
  to the \<open>async_writer\<close>, in order; \<open>strand\<close> is the queue of posted tasks. The last
  nine fields are the run-time environment: the store of shared states, the asynchronous
  operations whose handlers have not run yet, the stop flag of the io service, whether the
  worker thread is inside \<open>io_.run()\<close>, whether it has been joined, where it is in
  the read handler, the buffer, index and promise of the lambda of \<open>client::post\<close>
  that has done its insert and not yet its write, and the exception that has left a
  handler (which ends the process).
\<close>

record impl =
  call_idx :: "32 word"
  ongoing_calls :: "32 word \<rightharpoonup> promise"
  addr :: string
  port :: "16 word"
  pac :: nat
  is_connected :: bool
  state :: connection_state
  writer :: "sbuffer list"
  strand :: "task list"
  shared :: "shared_state list"
  connects_outstanding :: nat
  reads_outstanding :: nat
  io_stopped :: bool
  io_running :: bool
  io_thread_joined :: bool
  worker :: worker_state
  posting :: "(sbuffer \<times> 32 word \<times> promise) option"
  uncaught :: "exn option"

subsection \<open>Promises\<close>

text \<open>\<open>std::promise()\<close>: a new shared state, not ready.\<close>

definition new_promise :: "impl \<Rightarrow> promise \<times> impl" where
  "new_promise s = (length (shared s), s\<lparr>shared := shared s @ [not_ready]\<rparr>)"

text \<open>
  \<open>set_value\<close> and \<open>set_exception\<close> store into a shared state that is not ready and
  throw \<open>future_error\<close> otherwise.
\<close>

definition store_result :: "promise \<Rightarrow> shared_state \<Rightarrow> impl \<Rightarrow> exn + impl" where
  "store_result p r s =
     (if length (shared s) \<le> p then Inl no_state
      else if shared s ! p \<noteq> not_ready then Inl promise_already_satisfied
      else Inr (s\<lparr>shared := (shared s)[p := r]\<rparr>))"

definition set_value :: "promise \<Rightarrow> object_handle \<Rightarrow> impl \<Rightarrow> exn + impl" where
  "set_value p v s = store_result p (ready_value v) s"

definition set_exception :: "promise \<Rightarrow> exn \<Rightarrow> impl \<Rightarrow> exn + impl" where
  "set_exception p e s = store_result p (ready_exception e) s"

text \<open>
  \<open>~promise()\<close>: a shared state that is not ready is abandoned, which stores
  \<open>broken_promise\<close>.
\<close>

definition promise_dtor :: "promise \<Rightarrow> impl \<Rightarrow> impl" where
  "promise_dtor p s =
     (if p < length (shared s) \<and> shared s ! p = not_ready
      then s\<lparr>shared := (shared s)[p := ready_exception broken_promise]\<rparr>
      else s)"

subsection \<open>The map of ongoing calls\<close>

text \<open>\<open>ongoing_calls_[id]\<close>: the promise stored under \<open>id\<close>, a new one when there is none.\<close>

definition subscript :: "32 word \<Rightarrow> impl \<Rightarrow> promise \<times> impl" where
  "subscript i s =
     (case ongoing_calls s i of
        Some p \<Rightarrow> (p, s)
      | None \<Rightarrow>
          (case new_promise s of
             (p, s') \<Rightarrow> (p, s'\<lparr>ongoing_calls := (ongoing_calls s')(i \<mapsto> p)\<rparr>)))"

text \<open>
  \<open>ongoing_calls_.insert(std::make_pair(idx, std::move(*p)))\<close>: \<open>insert\<close> keeps an
  element that is already there; the pair, and the promise moved into it, is then
  destroyed.
\<close>

definition insert_call :: "32 word \<Rightarrow> promise \<Rightarrow> impl \<Rightarrow> impl" where
  "insert_call idx p s =
     (case ongoing_calls s idx of
        None \<Rightarrow> s\<lparr>ongoing_calls := (ongoing_calls s)(idx \<mapsto> p)\<rparr>
      | Some _ \<Rightarrow> promise_dtor p s)"

text \<open>\<open>ongoing_calls_.erase(id)\<close>: the element is removed and its promise destroyed.\<close>

definition erase :: "32 word \<Rightarrow> impl \<Rightarrow> impl" where
  "erase i s =
     (case ongoing_calls s i of
        None \<Rightarrow> s
      | Some p \<Rightarrow> promise_dtor p (s\<lparr>ongoing_calls := (ongoing_calls s)(i := None)\<rparr>))"

subsection \<open>The strand and the writer\<close>

text \<open>\<open>strand_.post(f)\<close>: the task is queued behind the tasks posted before.\<close>

definition strand_post :: "task \<Rightarrow> impl \<Rightarrow> impl" where
  "strand_post t s = s\<lparr>strand := strand s @ [t]\<rparr>"

text \<open>
  Modelled from the spec: \<open>async_writer\<close> (callme/detail/async_writer.h) is not among the
  sources. Following section 4.5 it keeps a FIFO of buffers and offers one operation,
  to enqueue a buffer for transmission.
\<close>

definition impl_write :: "sbuffer \<Rightarrow> impl \<Rightarrow> impl" where
  "impl_write item s = s\<lparr>writer := writer s @ [item]\<rparr>"

text \<open>The body of each posted lambda.\<close>

fun run_task :: "task \<Rightarrow> impl \<Rightarrow> impl" where
  "run_task (erase_task i) s = erase i s"
| "run_task (call_task buffer idx p) s = impl_write buffer (insert_call idx p s)"
| "run_task (notify_task buffer) s = impl_write buffer s"

text \<open>The two overloads of \<open>client::post\<close>.\<close>

definition post_call :: "sbuffer \<Rightarrow> 32 word \<Rightarrow> promise \<Rightarrow> impl \<Rightarrow> impl" where
  "post_call buffer idx p s = strand_post (call_task buffer idx p) s"

definition post :: "sbuffer \<Rightarrow> impl \<Rightarrow> impl" where
  "post buffer s = strand_post (notify_task buffer) s"

subsection \<open>The call index\<close>

text \<open>
  \<open>get_next_call_idx\<close> is two operations on the atomic counter: the increment
  \<open>++(pimpl->call_idx_)\<close> and the load of \<open>return pimpl->call_idx_\<close>. An
  \<open>std::atomic<int>\<close> wraps around on overflow.
\<close>

definition increment_call_idx :: "impl \<Rightarrow> impl" where
  "increment_call_idx s = s\<lparr>call_idx := call_idx s + 1\<rparr>"

definition load_call_idx :: "impl \<Rightarrow> 32 word" where
  "load_call_idx s = call_idx s"

text \<open>One caller, undisturbed by others.\<close>

definition get_next_call_idx :: "impl \<Rightarrow> 32 word \<times> impl" where
  "get_next_call_idx s = (load_call_idx (increment_call_idx s), increment_call_idx s)"

text \<open>\<open>n\<close> invocations one after the other, and the values they return.\<close>

fun next_call_idxs :: "nat \<Rightarrow> impl \<Rightarrow> 32 word list \<times> impl" where
  "next_call_idxs 0 s = ([], s)"
| "next_call_idxs (Suc n) s =
     (case get_next_call_idx s of
        (i, s') \<Rightarrow> (case next_call_idxs n s' of (is, s'') \<Rightarrow> (i # is, s'')))"

text \<open>
  Several callers at once. Each caller is before its increment, before its load, or has
  returned; a schedule names the caller that performs its next atomic operation.
\<close>

datatype caller = at_increment | at_load | returned "32 word"

definition caller_step :: "nat \<Rightarrow> caller list \<times> impl \<Rightarrow> caller list \<times> impl" where
  "caller_step t cs =
     (case cs of
        (callers, s) \<Rightarrow>
          (if length callers \<le> t then (callers, s)
           else (case callers ! t of
                   at_increment \<Rightarrow> (callers[t := at_load], increment_call_idx s)
                 | at_load \<Rightarrow> (callers[t := returned (load_call_idx s)], s)
                 | returned i \<Rightarrow> (callers, s))))"

fun schedule :: "nat list \<Rightarrow> caller list \<times> impl \<Rightarrow> caller list \<times> impl" where
  "schedule [] cs = cs"
| "schedule (t # ts) cs = schedule ts (caller_step t cs)"

subsection \<open>Connecting and reading\<close>

text \<open>\<open>do_read\<close> and \<open>do_connect\<close> start one asynchronous operation each.\<close>

definition do_read :: "impl \<Rightarrow> impl" where
  "do_read s = s\<lparr>reads_outstanding := reads_outstanding s + 1\<rparr>"

definition do_connect :: "impl \<Rightarrow> impl" where
  "do_connect s = s\<lparr>connects_outstanding := connects_outstanding s + 1\<rparr>"

text \<open>The handler of \<open>async_connect\<close>.\<close>

definition connect_handler :: "error_code \<Rightarrow> impl \<Rightarrow> impl" where
  "connect_handler ec s =
     (if ec = no_error
      then do_read (s\<lparr>is_connected := True, state := connected\<rparr>)
      else s)"

text \<open>\<open>pac_.buffer_consumed(length)\<close>.\<close>

definition buffer_consumed :: "nat \<Rightarrow> impl \<Rightarrow> impl" where
  "buffer_consumed n s = s\<lparr>pac := pac s + n\<rparr>"

text \<open>
  The body of the \<open>while\<close> loop of the read handler, for one response: the promise is
  looked up, the task that erases it is posted, and the \<open>try\<close> block runs; what it throws
  goes to \<open>set_exception\<close> in the \<open>catch\<close> block, and what that throws leaves the
  handler.
\<close>

definition process_response :: "response \<Rightarrow> impl \<Rightarrow> impl" where
  "process_response r s =
     (case subscript (get_id r) s of
        (p, s1) \<Rightarrow>
          (let s2 = strand_post (erase_task (get_id r)) s1;
               tried = (case get_error r of
                          Some e \<Rightarrow> Inl (runtime_error ''callme: error during RPC call: {}'' e)
                        | None \<Rightarrow> set_value p (get_result r) s2)
           in case tried of
                Inr s3 \<Rightarrow> s3
              | Inl x \<Rightarrow>
                  (case set_exception p x s2 of
                     Inr s3 \<Rightarrow> s3
                   | Inl y \<Rightarrow> s2\<lparr>uncaught := Some y\<rparr>)))"

text \<open>The \<open>while\<close> loop: it ends when \<open>next\<close> returns \<open>false\<close> or when an exception escapes.\<close>

fun read_loop :: "unpacked list \<Rightarrow> impl \<Rightarrow> impl" where
  "read_loop [] s = s"
| "read_loop (decode_throws e # us) s = s\<lparr>uncaught := Some e\<rparr>"
| "read_loop (decoded r # us) s =
     (let s' = process_response r s
      in if uncaught s' = None then read_loop us s' else s')"

text \<open>The branches of the read handler on an error code.\<close>

definition read_failed :: "error_code \<Rightarrow> impl \<Rightarrow> impl" where
  "read_failed ec s =
     (if ec = eof then s\<lparr>state := disconnected\<rparr>
      else if ec = connection_reset then s\<lparr>state := reset\<rparr>
      else s)"

text \<open>
  The handler of \<open>async_read_some\<close>, from its first line to its last: \<open>us\<close> lists what
  the unpacker yields for the bytes that are buffered after this read.
\<close>

definition read_handler :: "error_code \<Rightarrow> nat \<Rightarrow> unpacked list \<Rightarrow> impl \<Rightarrow> impl" where
  "read_handler ec n us s =
     (if ec = no_error
      then (let s' = read_loop us (buffer_consumed n s)
            in if uncaught s' = None then do_read s' else s')
      else read_failed ec s)"

subsection \<open>Construction\<close>

text \<open>
  The constructor of \<open>impl\<close>, and \<open>client::client\<close>, which starts the connection and
  then the thread that calls \<open>io_.run()\<close>.
\<close>

definition impl_ctor :: "string \<Rightarrow> 16 word \<Rightarrow> impl" where
  "impl_ctor a p =
     \<lparr>call_idx = 0, ongoing_calls = Map.empty, addr = a, port = p, pac = 0,
      is_connected = False, state = initial, writer = [], strand = [], shared = [],
      connects_outstanding = 0, reads_outstanding = 0, io_stopped = False,
      io_running = False, io_thread_joined = False, worker = idle, posting = None,
      uncaught = None\<rparr>"

definition io_thread_start :: "impl \<Rightarrow> impl" where
  "io_thread_start s = s\<lparr>io_running := True\<rparr>"

definition client_ctor :: "string \<Rightarrow> 16 word \<Rightarrow> impl" where
  "client_ctor a p = io_thread_start (do_connect (impl_ctor a p))"

subsection \<open>The io service\<close>

text \<open>
  What can happen to a client. The worker thread runs one handler at a time: the handler
  of the connect, the handler of a read, a task of the strand. The read handler is taken
  in turns of its loop, and the lambda that posts a call in two turns, its insert and its
  write, so that what the caller threads do meanwhile (posting, stopping the io service)
  falls between two turns. A caller takes the next call index, creates a promise and posts
  a call, or posts a notification. \<open>io_.run()\<close> returns, which ends the worker thread.
  The destructor calls \<open>io_.stop()\<close> and then \<open>io_thread_.join()\<close>.
\<close>

datatype event =
    connect_done error_code
  | read_done error_code nat "unpacked list"
  | read_loop_turn
  | strand_run
  | post_turn
  | caller_next_idx
  | caller_call sbuffer "32 word"
  | caller_notify sbuffer
  | run_returns
  | stop
  | join

text \<open>The read handler up to its loop, and one turn of the loop.\<close>

definition read_begin :: "error_code \<Rightarrow> nat \<Rightarrow> unpacked list \<Rightarrow> impl \<Rightarrow> impl" where
  "read_begin ec n us s =
     (if ec = no_error
      then (buffer_consumed n s)\<lparr>worker := in_read_loop us\<rparr>
      else read_failed ec s)"

definition read_turn :: "unpacked list \<Rightarrow> impl \<Rightarrow> impl" where
  "read_turn us s =
     (case us of
        [] \<Rightarrow> do_read (s\<lparr>worker := idle\<rparr>)
      | decode_throws e # us' \<Rightarrow> s\<lparr>uncaught := Some e\<rparr>
      | decoded r # us' \<Rightarrow> (process_response r s)\<lparr>worker := in_read_loop us'\<rparr>)"

text \<open>
  A task of the strand up to its last statement: the lambda that posts a call does its
  insert, and its write is the turn that follows; the other two lambdas are one
  statement.
\<close>

definition strand_begin :: "task \<Rightarrow> impl \<Rightarrow> impl" where
  "strand_begin t s =
     (case t of
        call_task buffer idx p \<Rightarrow> (insert_call idx p s)\<lparr>posting := Some (buffer, idx, p)\<rparr>
      | erase_task i \<Rightarrow> run_task t s
      | notify_task buffer \<Rightarrow> run_task t s)"

definition post_write :: "sbuffer \<Rightarrow> impl \<Rightarrow> impl" where
  "post_write buffer s = (impl_write buffer s)\<lparr>posting := None\<rparr>"

text \<open>\<open>io_.run()\<close> has nothing left to wait for.\<close>

definition out_of_work :: "impl \<Rightarrow> bool" where
  "out_of_work s \<longleftrightarrow>
     connects_outstanding s = 0 \<and> reads_outstanding s = 0 \<and> strand s = []"

text \<open>
  \<open>io_.stop()\<close> sets the stop flag of the io service. The io service is the one of asio,
  which is not among the sources; by its documentation \<open>stop\<close> does not block, \<open>run\<close>
  returns as soon as possible after it, and a handler that is ready and has not started
  is not run.
\<close>

definition io_stop :: "impl \<Rightarrow> impl" where
  "io_stop s = s\<lparr>io_stopped := True\<rparr>"

text \<open>
  An event takes place when it can: a handler starts only when its operation is
  outstanding, the worker is inside \<open>io_.run()\<close> and between handlers, and the io
  service has not been stopped; a handler that has started goes on; \<open>io_.run()\<close>
  returns between handlers, once the io service is stopped or out of work; \<open>join\<close>
  returns once \<open>io_.run()\<close> has returned; nothing happens after an exception has left
  a handler. The io service may run the handlers in fewer orders than these, never in more.
\<close>

definition fire :: "event \<Rightarrow> impl \<Rightarrow> impl option" where
  "fire e s =
     (if uncaught s \<noteq> None then None
      else case e of
        connect_done ec \<Rightarrow>
          if io_running s \<and> worker s = idle \<and> posting s = None \<and> \<not> io_stopped s
             \<and> 0 < connects_outstanding s
          then Some (connect_handler ec (s\<lparr>connects_outstanding := connects_outstanding s - 1\<rparr>))
          else None
      | read_done ec n us \<Rightarrow>
          if io_running s \<and> worker s = idle \<and> posting s = None \<and> \<not> io_stopped s
             \<and> 0 < reads_outstanding s
          then Some (read_begin ec n us (s\<lparr>reads_outstanding := reads_outstanding s - 1\<rparr>))
          else None
      | read_loop_turn \<Rightarrow>
          if io_running s
          then (case worker s of
                  idle \<Rightarrow> None
                | in_read_loop us \<Rightarrow> Some (read_turn us s))
          else None
      | strand_run \<Rightarrow>
          if io_running s \<and> worker s = idle \<and> posting s = None \<and> \<not> io_stopped s
          then (case strand s of
                  [] \<Rightarrow> None
                | t # ts \<Rightarrow> Some (strand_begin t (s\<lparr>strand := ts\<rparr>)))
          else None
      | post_turn \<Rightarrow>
          if io_running s
          then (case posting s of
                  None \<Rightarrow> None
                | Some (buffer, idx, p) \<Rightarrow> Some (post_write buffer s))
          else None
      | caller_next_idx \<Rightarrow> Some (snd (get_next_call_idx s))
      | caller_call buffer idx \<Rightarrow>
          (case new_promise s of (p, s') \<Rightarrow> Some (post_call buffer idx p s'))
      | caller_notify buffer \<Rightarrow> Some (post buffer s)
      | run_returns \<Rightarrow>
          if io_running s \<and> worker s = idle \<and> posting s = None
             \<and> (io_stopped s \<or> out_of_work s)
          then Some (s\<lparr>io_running := False\<rparr>)
          else None
      | stop \<Rightarrow> Some (io_stop s)
      | join \<Rightarrow>
          if \<not> io_running s
          then Some (s\<lparr>io_thread_joined := True\<rparr>)
          else None)"

fun run :: "event list \<Rightarrow> impl \<Rightarrow> impl option" where
  "run [] s = Some s"
| "run (e # es) s = (case fire e s of None \<Rightarrow> None | Some s' \<Rightarrow> run es s')"

subsection \<open>Destruction\<close>

text \<open>
  Between the stop and the end of \<open>io_.run()\<close> the worker runs the handler it is in to
  its end (the write of the lambda that posts a call, or the rest of the loop of the read
  handler and the read it starts) and starts no other; then \<open>io_.run()\<close> returns. When
  an exception leaves the handler, it does not return.
\<close>

definition worker_winds_up :: "impl \<Rightarrow> impl" where
  "worker_winds_up s =
     (if \<not> io_running s then s
      else case posting s of
        Some (buffer, idx, p) \<Rightarrow> (post_write buffer s)\<lparr>io_running := False\<rparr>
      | None \<Rightarrow>
          (case worker s of
             idle \<Rightarrow> s\<lparr>io_running := False\<rparr>
           | in_read_loop us \<Rightarrow>
               (let t = read_loop us s
                in if uncaught t = None
                   then (do_read t)\<lparr>worker := idle, io_running := False\<rparr>
                   else t)))"

text \<open>
  The destructor of \<open>impl\<close>. Its members go in reverse order; of these the map of
  ongoing calls destroys the promises it holds, and a promise whose shared state is not
  ready stores \<open>broken_promise\<close> there. The tasks that are still in the strand are
  dropped with the io service; the promises they point to are not destroyed.
\<close>

definition impl_dtor :: "impl \<Rightarrow> impl" where
  "impl_dtor s =
     s\<lparr>shared :=
         map (\<lambda>a. if shared s ! a = not_ready \<and> a \<in> ran (ongoing_calls s)
                   then ready_exception broken_promise else shared s ! a)
           [0..<length (shared s)],
       ongoing_calls := Map.empty, strand := []\<rparr>"

text \<open>
  \<open>client::~client\<close>: the body stops the io service and joins the worker thread, which
  ends as said above; then the members of the client are destroyed. The member
  \<open>pimpl\<close> holds the \<open>impl\<close> itself (the constructor of the client builds it from the
  arguments of the constructor of \<open>impl\<close>), so the \<open>impl\<close> is destroyed with it. The
  destructor does not return when an exception has left a handler.
\<close>

definition client_dtor :: "impl \<Rightarrow> impl option" where
  "client_dtor s =
     (if uncaught s \<noteq> None then None
      else (let t = worker_winds_up (io_stop s)
            in if uncaught t \<noteq> None then None
               else Some (impl_dtor (t\<lparr>io_thread_joined := True\<rparr>))))"

text \<open>The promises that wait in the strand to be registered.\<close>

fun queued_promises :: "task list \<Rightarrow> promise list" where
  "queued_promises [] = []"
| "queued_promises (call_task buffer idx p # ts) = p # queued_promises ts"
| "queued_promises (t # ts) = queued_promises ts"

subsection \<open>Notions used in the statements\<close>

text \<open>
  From \<open>s\<close> to \<open>s'\<close> no shared state is lost and every shared state that is ready
  keeps what it holds.
\<close>

definition kept :: "impl \<Rightarrow> impl \<Rightarrow> bool" where
  "kept s s' \<longleftrightarrow>
     length (shared s) \<le> length (shared s') \<and>
     (\<forall>a < length (shared s). shared s ! a \<noteq> not_ready \<longrightarrow> shared s' ! a = shared s ! a)"

text \<open>
  The promise \<open>a\<close> is neither in the map of ongoing calls nor on its way into it: its
  entry has been removed, or there never was one.
\<close>

definition unreferenced :: "promise \<Rightarrow> impl \<Rightarrow> bool" where
  "unreferenced a s \<longleftrightarrow>
     a < length (shared s) \<and> (\<forall>i. ongoing_calls s i \<noteq> Some a) \<and>
     a \<notin> set (queued_promises (strand s))"

definition same_at :: "promise \<Rightarrow> impl \<Rightarrow> impl \<Rightarrow> bool" where
  "same_at a s s' \<longleftrightarrow> unreferenced a s' \<and> shared s' ! a = shared s ! a"

subsection \<open>A client at work\<close>

text \<open>
  The states and frames of the scenarios of section 8: a client; the client once call 1
  with request \<open>X\<close> is registered and written and the connection is up; the response
  with result \<open>Y\<close>; the response with the error \<open>bad args\<close>; the client after the
  response \<open>Y\<close> has been delivered and the entry erased.
\<close>

definition a_client :: impl where
  "a_client = client_ctor ''localhost'' 8080"

definition awaiting :: impl where
  "awaiting =
     \<lparr>call_idx = 1, ongoing_calls = [1 \<mapsto> 0], addr = ''localhost'', port = 8080, pac = 0,
      is_connected = True, state = connected, writer = [''X''], strand = [],
      shared = [not_ready], connects_outstanding = 0, reads_outstanding = 1,
      io_stopped = False, io_running = True, io_thread_joined = False, worker = idle,
      posting = None, uncaught = None\<rparr>"

definition frame_Y :: response where
  "frame_Y = \<lparr>get_id = 1, get_error = None, get_result = ''Y''\<rparr>"

definition frame_bad_args :: response where
  "frame_bad_args = \<lparr>get_id = 1, get_error = Some ''bad args'', get_result = []\<rparr>"

definition served :: impl where
  "served =
     \<lparr>call_idx = 1, ongoing_calls = Map.empty, addr = ''localhost'', port = 8080, pac = 5,
      is_connected = True, state = connected, writer = [''X''], strand = [],
      shared = [ready_value ''Y''], connects_outstanding = 0, reads_outstanding = 1,
      io_stopped = False, io_running = True, io_thread_joined = False, worker = idle,
      posting = None, uncaught = None\<rparr>"




text \<open>A response with an id that no call has: the server sends it unasked.\<close>

definition frame_7 :: response where
  "frame_7 = \<lparr>get_id = 7, get_error = None, get_result = ''Z''\<rparr>"

text \<open>
  The awaiting client when the server has sent that response twice in one read of 8
  bytes and the exception has left the read handler: the second response has found the
  entry of the first.
\<close>

definition crashed :: impl where
  "crashed =
     awaiting\<lparr>ongoing_calls := [1 \<mapsto> 0, 7 \<mapsto> 1], pac := 8,
       strand := [erase_task 7, erase_task 7], shared := [not_ready, ready_value ''Z''],
       reads_outstanding := 0, worker := in_read_loop [],
       uncaught := Some promise_already_satisfied\<rparr>"

text \<open>
  The awaiting client once the server has closed the stream; and the awaiting client
  whose destructor has called \<open>io_.stop()\<close> while the worker is in the loop of the read
  handler, with the response \<open>Y\<close> unpacked and not yet processed.
\<close>

definition hung_up :: impl where
  "hung_up = awaiting\<lparr>state := disconnected, reads_outstanding := 0\<rparr>"

definition stopping :: impl where
  "stopping =
     awaiting\<lparr>pac := 5, reads_outstanding := 0, io_stopped := True,
       worker := in_read_loop [decoded frame_Y]\<rparr>"


text \<open>
  The awaiting client once the response \<open>Y\<close> has been delivered and the next read
  started, the task that erases the entry still in the strand.
\<close>

definition answered :: impl where
  "answered =
     awaiting\<lparr>pac := 5, strand := [erase_task 1], shared := [ready_value ''Y'']\<rparr>"

subsection \<open>Invariants\<close>

text \<open>
  At most one of these is there at a time: the connect that has not completed, the read
  that has not completed, the read handler in its loop.
\<close>

definition one_source :: "impl \<Rightarrow> bool" where
  "one_source s \<longleftrightarrow>
     connects_outstanding s + reads_outstanding s
       + (case worker s of idle \<Rightarrow> 0 | in_read_loop us \<Rightarrow> 1) \<le> (1::nat)"

text \<open>None of them is there: nothing will call the read handler.\<close>

definition read_over :: "impl \<Rightarrow> bool" where
  "read_over s \<longleftrightarrow>
     connects_outstanding s = 0 \<and> reads_outstanding s = 0 \<and> worker s = idle"


text \<open>
  The ids that wait in the strand to be erased. Unless an exception has left a handler,
  they are distinct, and each has an entry whose promise is ready.
\<close>

fun queued_erases :: "task list \<Rightarrow> 32 word list" where
  "queued_erases [] = []"
| "queued_erases (erase_task i # ts) = i # queued_erases ts"
| "queued_erases (t # ts) = queued_erases ts"

definition erases_fulfilled :: "impl \<Rightarrow> bool" where
  "erases_fulfilled s \<longleftrightarrow>
     uncaught s \<noteq> None \<or>
     (distinct (queued_erases (strand s)) \<and>
      (\<forall>i \<in> set (queued_erases (strand s)).
         \<exists>a. ongoing_calls s i = Some a \<and> a < length (shared s) \<and> shared s ! a \<noteq> not_ready))"

section \<open>The call index\<close>

lemma get_next_call_idx_fst: "fst (get_next_call_idx s) = call_idx s + 1"
  by (simp add: get_next_call_idx_def load_call_idx_def increment_call_idx_def)

lemma get_next_call_idx_snd: "call_idx (snd (get_next_call_idx s)) = call_idx s + 1"
  by (simp add: get_next_call_idx_def increment_call_idx_def)

lemma sint_succ:
  fixes x :: "32 word"
  assumes "sint x \<noteq> 2 ^ 31 - 1"
  shows "sint (x + 1) = sint x + 1"
proof -
  have lo: "- (2 ^ 31) \<le> sint x" using sint_ge [of x] by simp
  have hi: "sint x < 2 ^ 31" using sint_lt [of x] by simp
  have "sint (x + 1) = signed_take_bit 31 (sint x + 1)"
    by (simp add: sint_word_ariths)
  also have "\<dots> = sint x + 1"
    using lo hi assms by (intro signed_take_bit_int_eq_self) simp_all
  finally show ?thesis .
qed

lemma next_call_idxs_eq:
  "fst (next_call_idxs n s) = map (\<lambda>k. call_idx s + of_nat (Suc k)) [0..<n]"
proof (induction n arbitrary: s)
  case 0
  show ?case by simp
next
  case (Suc n)
  obtain i s' where g: "get_next_call_idx s = (i, s')"
    by (cases "get_next_call_idx s")
  have i: "i = call_idx s + 1"
    using get_next_call_idx_fst [of s] g by simp
  have s': "call_idx s' = call_idx s + 1"
    using get_next_call_idx_snd [of s] g by simp
  have "fst (next_call_idxs (Suc n) s) = i # fst (next_call_idxs n s')"
    using g by (simp split: prod.splits)
  also have "\<dots> = (call_idx s + 1) # map (\<lambda>k. call_idx s + 1 + of_nat (Suc k)) [0..<n]"
    using Suc.IH [of s'] i s' by simp
  also have "\<dots> = map (\<lambda>k. call_idx s + of_nat (Suc k)) (0 # map Suc [0..<n])"
    by (simp add: add.assoc)
  also have "0 # map Suc [0..<n] = [0..<Suc n]"
    by (simp only: map_Suc_upt upt_conv_Cons [of 0 "Suc n", OF zero_less_Suc])
  finally show ?case .
qed

text \<open>
  C10. The counter is a member of \<open>impl\<close>, one per client, and starts at zero; the
  first invocation of \<open>get_next_call_idx\<close> returns 1; of \<open>n\<close> invocations one after
  the other, each returns the value returned before it plus one. The sum is that of the
  32-bit \<open>int\<close>; it is the sum of the integers except after \<open>2 ^ 31 - 1\<close>.
\<close>

theorem call_idx_sequential:
  "call_idx (client_ctor a p) = 0
   \<and> fst (get_next_call_idx (client_ctor a p)) = 1
   \<and> fst (next_call_idxs n s) = map (\<lambda>k. call_idx s + of_nat (Suc k)) [0..<n]
   \<and> (Suc k < n \<longrightarrow> fst (next_call_idxs n s) ! Suc k = fst (next_call_idxs n s) ! k + 1)
   \<and> (Suc k < n \<longrightarrow> sint (fst (next_call_idxs n s) ! k) \<noteq> 2 ^ 31 - 1 \<longrightarrow>
        sint (fst (next_call_idxs n s) ! Suc k) = sint (fst (next_call_idxs n s) ! k) + 1)"
proof -
  have c0: "call_idx (client_ctor a p) = 0"
    by (simp add: client_ctor_def io_thread_start_def do_connect_def impl_ctor_def)
  have c1: "fst (get_next_call_idx (client_ctor a p)) = 1"
    by (simp add: get_next_call_idx_fst c0)
  have step: "fst (next_call_idxs n s) ! Suc k = fst (next_call_idxs n s) ! k + 1" if "Suc k < n"
    using that by (simp add: next_call_idxs_eq add.assoc)
  show ?thesis
    using c0 c1 next_call_idxs_eq [of n s] step sint_succ by metis
qed

theorem call_idx_sequential_witness:
  "call_idx (client_ctor ''localhost'' 8080) = 0
   \<and> fst (get_next_call_idx (client_ctor ''localhost'' 8080)) = 1
   \<and> fst (next_call_idxs 3 (client_ctor ''localhost'' 8080)) = [1, 2, 3]
   \<and> Suc 1 < (3::nat)
   \<and> sint (fst (next_call_idxs 3 (client_ctor ''localhost'' 8080)) ! 1) \<noteq> 2 ^ 31 - 1
   \<and> fst (next_call_idxs 3 (client_ctor ''localhost'' 8080)) ! Suc 1 = 3
   \<and> sint (fst (next_call_idxs 3 (client_ctor ''localhost'' 8080)) ! Suc 1) = 3"
proof -
  have l: "fst (next_call_idxs 3 (client_ctor ''localhost'' 8080)) = [1, 2, 3]"
    by (simp add: eval_nat_numeral get_next_call_idx_def load_call_idx_def
        increment_call_idx_def client_ctor_def io_thread_start_def do_connect_def impl_ctor_def)
  show ?thesis
    using call_idx_sequential [of "''localhost''" 8080 3 "client_ctor ''localhost'' 8080" 1]
    by (simp add: l)
qed

text \<open>
  C2. Two callers invoke \<open>get_next_call_idx\<close> on a new client at the same time. When
  both increments come before both loads, both callers return 2: the values returned are
  not distinct. When one caller is done before the other starts, they return 1 and 2.
\<close>

theorem call_idx_concurrent_duplicate:
  "fst (schedule [0, 1, 0, 1] ([at_increment, at_increment], client_ctor ''localhost'' 8080))
     = [returned 2, returned 2]
   \<and> fst (schedule [0, 0, 1, 1] ([at_increment, at_increment], client_ctor ''localhost'' 8080))
     = [returned 1, returned 2]"
  by (simp add: caller_step_def increment_call_idx_def load_call_idx_def client_ctor_def
      io_thread_start_def impl_ctor_def do_connect_def)

section \<open>Shared states that are ready stay as they are\<close>

lemma kept_refl: "kept s s"
  by (simp add: kept_def)

lemma kept_trans: "kept s s' \<Longrightarrow> kept s' s'' \<Longrightarrow> kept s s''"
  unfolding kept_def by (metis le_trans less_le_trans)

lemma kept_shared_eq: "shared s' = shared s \<Longrightarrow> kept s s'"
  by (simp add: kept_def)

lemma kept_store_result: "store_result p r s = Inr s' \<Longrightarrow> kept s s'"
  by (auto simp: kept_def store_result_def nth_list_update split: if_splits)

lemma kept_promise_dtor: "kept s (promise_dtor p s)"
  by (auto simp: kept_def promise_dtor_def nth_list_update)

lemma kept_subscript: "kept s (snd (subscript i s))"
  by (auto simp: kept_def subscript_def new_promise_def nth_append split: option.splits)

lemma kept_insert_call: "kept s (insert_call idx p s)"
  by (auto simp: insert_call_def kept_shared_eq kept_promise_dtor split: option.splits)

lemma kept_erase: "kept s (erase i s)"
  by (auto simp: kept_def erase_def promise_dtor_def nth_list_update split: option.splits)

lemma kept_run_task: "kept s (run_task t s)"
proof (cases t)
  case (erase_task i)
  then show ?thesis by (simp add: kept_erase)
next
  case (call_task buffer idx p)
  have "kept (insert_call idx p s) (impl_write buffer (insert_call idx p s))"
    by (simp add: kept_shared_eq impl_write_def)
  with kept_insert_call [of s idx p] show ?thesis
    using call_task by (auto intro: kept_trans)
next
  case (notify_task buffer)
  then show ?thesis by (simp add: kept_shared_eq impl_write_def)
qed

lemma kept_strand_begin: "kept s (strand_begin t s)"
proof (cases t)
  case (erase_task i)
  then show ?thesis by (simp add: strand_begin_def kept_erase)
next
  case (call_task buffer idx p)
  have "kept (insert_call idx p s) ((insert_call idx p s)\<lparr>posting := Some (buffer, idx, p)\<rparr>)"
    by (simp add: kept_shared_eq)
  with kept_insert_call [of s idx p] show ?thesis
    using call_task by (auto simp: strand_begin_def intro: kept_trans)
next
  case (notify_task buffer)
  then show ?thesis by (simp add: strand_begin_def kept_shared_eq impl_write_def)
qed

lemma kept_process_response: "kept s (process_response r s)"
proof -
  obtain p s1 where sub: "subscript (get_id r) s = (p, s1)"
    by (cases "subscript (get_id r) s")
  define s2 where "s2 = strand_post (erase_task (get_id r)) s1"
  have k1: "kept s s1" using kept_subscript [of s "get_id r"] sub by simp
  have k2: "kept s1 s2" by (simp add: s2_def strand_post_def kept_shared_eq)
  have k: "kept s s2" using k1 k2 by (rule kept_trans)
  have k3: "kept s2 (s2\<lparr>uncaught := Some y\<rparr>)" for y by (simp add: kept_shared_eq)
  have "kept s2 (process_response r s)"
    using sub k3
    by (auto simp: process_response_def Let_def s2_def [symmetric] set_value_def
        set_exception_def kept_refl
        split: option.splits sum.splits dest: kept_store_result)
  with k show ?thesis by (rule kept_trans)
qed

lemma kept_read_loop: "kept s (read_loop us s)"
proof (induction us s rule: read_loop.induct)
  case (1 s)
  show ?case by (simp add: kept_refl)
next
  case (2 e us s)
  show ?case by (simp add: kept_shared_eq)
next
  case (3 r us s)
  then show ?case
    using kept_process_response [of s r] by (auto simp: Let_def intro: kept_trans)
qed

lemma kept_read_turn: "kept s (read_turn us s)"
proof (cases us)
  case Nil
  then show ?thesis by (simp add: read_turn_def do_read_def kept_shared_eq)
next
  case (Cons u us')
  show ?thesis
  proof (cases u)
    case (decoded r)
    have "kept (process_response r s) ((process_response r s)\<lparr>worker := in_read_loop us'\<rparr>)"
      by (simp add: kept_shared_eq)
    with kept_process_response [of s r] show ?thesis
      using Cons decoded by (auto simp: read_turn_def intro: kept_trans)
  next
    case (decode_throws x)
    then show ?thesis using Cons by (simp add: read_turn_def kept_shared_eq)
  qed
qed

lemma kept_fire:
  assumes f: "fire e s = Some s'"
  shows "kept s s'"
proof (cases e)
  case (connect_done ec)
  then show ?thesis using f
    by (auto simp: fire_def connect_handler_def do_read_def kept_shared_eq split: if_splits)
next
  case (read_done ec n us)
  then show ?thesis using f
    by (auto simp: fire_def read_begin_def read_failed_def buffer_consumed_def kept_shared_eq
        split: if_splits)
next
  case read_loop_turn
  then obtain us where "s' = read_turn us s"
    using f by (auto simp: fire_def split: if_splits worker_state.splits)
  then show ?thesis by (simp add: kept_read_turn)
next
  case strand_run
  then obtain t ts where s': "s' = strand_begin t (s\<lparr>strand := ts\<rparr>)"
    using f by (auto simp: fire_def split: if_splits list.splits)
  have "kept s (s\<lparr>strand := ts\<rparr>)" by (simp add: kept_shared_eq)
  with kept_strand_begin [of "s\<lparr>strand := ts\<rparr>" t] show ?thesis
    using s' by (auto intro: kept_trans)
next
  case post_turn
  then show ?thesis using f
    by (auto simp: fire_def post_write_def impl_write_def kept_shared_eq
        split: if_splits option.splits)
next
  case caller_next_idx
  then show ?thesis using f
    by (auto simp: fire_def get_next_call_idx_def increment_call_idx_def kept_shared_eq
        split: if_splits)
next
  case (caller_call buffer idx)
  then show ?thesis using f
    by (auto simp: fire_def new_promise_def post_call_def strand_post_def kept_def nth_append
        split: if_splits)
next
  case (caller_notify buffer)
  then show ?thesis using f
    by (auto simp: fire_def post_def strand_post_def kept_shared_eq split: if_splits)
next
  case stop
  then show ?thesis using f
    by (auto simp: io_stop_def fire_def kept_shared_eq split: if_splits)
next
  case run_returns
  then show ?thesis using f by (auto simp: kept_shared_eq fire_def split: if_splits)
next
  case join
  then show ?thesis using f
    by (auto simp: fire_def kept_shared_eq split: if_splits)
qed

lemma kept_run: "run es s = Some s' \<Longrightarrow> kept s s'"
proof (induction es arbitrary: s)
  case Nil
  then show ?case by (simp add: kept_refl)
next
  case (Cons e es)
  then obtain s1 where f: "fire e s = Some s1" and r: "run es s1 = Some s'"
    by (auto split: option.splits)
  from kept_fire [OF f] Cons.IH [OF r] show ?case by (rule kept_trans)
qed

section \<open>A promise that is out of the map is out of reach\<close>

lemma queued_promises_append:
  "queued_promises (ts @ us) = queued_promises ts @ queued_promises us"
  by (induction ts rule: queued_promises.induct) simp_all

lemma unref_process_response:
  assumes "unreferenced a s"
  shows "same_at a s (process_response r s)"
  using assms
  by (auto simp: same_at_def unreferenced_def process_response_def Let_def subscript_def
      new_promise_def strand_post_def set_value_def set_exception_def store_result_def
      queued_promises_append nth_append nth_list_update
      split: option.splits sum.splits if_splits)

lemma unref_run_task:
  assumes "unreferenced a s" and "strand s = t # ts"
  shows "same_at a s (run_task t (s\<lparr>strand := ts\<rparr>))"
proof (cases t)
  case (erase_task i)
  then show ?thesis using assms
    by (auto simp: same_at_def unreferenced_def erase_def promise_dtor_def nth_list_update
        split: option.splits if_splits)
next
  case (call_task buffer idx p)
  then show ?thesis using assms
    by (auto simp: same_at_def unreferenced_def insert_call_def impl_write_def promise_dtor_def
        nth_list_update split: option.splits if_splits)
next
  case (notify_task buffer)
  then show ?thesis using assms
    by (auto simp: same_at_def unreferenced_def impl_write_def)
qed

lemma unref_strand_begin:
  assumes "unreferenced a s" and "strand s = t # ts"
  shows "same_at a s (strand_begin t (s\<lparr>strand := ts\<rparr>))"
proof (cases t)
  case (erase_task i)
  then show ?thesis using assms
    by (auto simp: strand_begin_def same_at_def unreferenced_def erase_def promise_dtor_def
        nth_list_update split: option.splits if_splits)
next
  case (call_task buffer idx p)
  then show ?thesis using assms
    by (auto simp: strand_begin_def same_at_def unreferenced_def insert_call_def
        promise_dtor_def nth_list_update split: option.splits if_splits)
next
  case (notify_task buffer)
  then show ?thesis using assms
    by (auto simp: strand_begin_def same_at_def unreferenced_def impl_write_def)
qed

lemma unref_fire:
  assumes f: "fire e s = Some s'" and u: "unreferenced a s"
  shows "same_at a s s'"
proof (cases e)
  case (connect_done ec)
  then show ?thesis using f u
    by (auto simp: same_at_def unreferenced_def fire_def connect_handler_def do_read_def
        split: if_splits)
next
  case (read_done ec n us)
  then show ?thesis using f u
    by (auto simp: same_at_def unreferenced_def fire_def read_begin_def read_failed_def
        buffer_consumed_def split: if_splits)
next
  case read_loop_turn
  then obtain us where s': "s' = read_turn us s"
    using f by (auto simp: fire_def split: if_splits worker_state.splits)
  show ?thesis
  proof (cases us)
    case Nil
    then show ?thesis using s' u
      by (simp add: same_at_def unreferenced_def read_turn_def do_read_def)
  next
    case (Cons x us')
    show ?thesis
    proof (cases x)
      case (decoded r)
      then show ?thesis using Cons s' unref_process_response [OF u, of r]
        by (simp add: same_at_def unreferenced_def read_turn_def)
    next
      case (decode_throws x)
      then show ?thesis using Cons s' u
        by (simp add: same_at_def unreferenced_def read_turn_def)
    qed
  qed
next
  case strand_run
  then obtain t ts where st: "strand s = t # ts"
    and s': "s' = strand_begin t (s\<lparr>strand := ts\<rparr>)"
    using f by (auto simp: fire_def split: if_splits list.splits)
  show ?thesis using unref_strand_begin [OF u st] s' by simp
next
  case post_turn
  then show ?thesis using f u
    by (auto simp: same_at_def unreferenced_def fire_def post_write_def impl_write_def
        split: if_splits option.splits)
next
  case caller_next_idx
  then show ?thesis using f u
    by (auto simp: same_at_def unreferenced_def fire_def get_next_call_idx_def
        increment_call_idx_def split: if_splits)
next
  case (caller_call buffer idx)
  then show ?thesis using f u
    by (auto simp: same_at_def unreferenced_def fire_def new_promise_def post_call_def
        strand_post_def queued_promises_append nth_append split: if_splits)
next
  case (caller_notify buffer)
  then show ?thesis using f u
    by (auto simp: same_at_def unreferenced_def fire_def post_def strand_post_def
        queued_promises_append split: if_splits)
next
  case stop
  then show ?thesis using f u
    by (auto simp: io_stop_def same_at_def unreferenced_def fire_def split: if_splits)
next
  case run_returns
  then show ?thesis using f u by (auto simp: same_at_def unreferenced_def fire_def split: if_splits)
next
  case join
  then show ?thesis using f u
    by (auto simp: same_at_def unreferenced_def fire_def split: if_splits)
qed

lemma unref_run:
  "run es s = Some s' \<Longrightarrow> unreferenced a s \<Longrightarrow> same_at a s s'"
proof (induction es arbitrary: s)
  case Nil
  then show ?case by (simp add: same_at_def)
next
  case (Cons e es)
  then obtain s1 where f: "fire e s = Some s1" and r: "run es s1 = Some s'"
    by (auto split: option.splits)
  have 1: "same_at a s s1" using unref_fire [OF f Cons.prems(2)] .
  then have "unreferenced a s1" by (simp add: same_at_def)
  from Cons.IH [OF r this] 1 show ?case by (simp add: same_at_def)
qed

section \<open>The scenarios are runs of the client\<close>

lemmas client_defs =
  fire_def connect_handler_def do_read_def do_connect_def read_begin_def read_turn_def
  read_failed_def buffer_consumed_def process_response_def subscript_def new_promise_def
  strand_post_def set_value_def set_exception_def store_result_def erase_def insert_call_def
  promise_dtor_def impl_write_def post_call_def post_def client_ctor_def impl_ctor_def
  get_next_call_idx_def increment_call_idx_def load_call_idx_def io_thread_start_def
  out_of_work_def strand_begin_def post_write_def io_stop_def

lemma run_awaiting:
  "run [caller_next_idx, caller_call ''X'' 1, connect_done no_error, strand_run, post_turn]
     a_client = Some awaiting"
  by (simp add: client_defs a_client_def awaiting_def)

lemma run_served:
  "run [read_done no_error 5 [decoded frame_Y], read_loop_turn, read_loop_turn, strand_run]
     awaiting = Some served"
  by (simp add: client_defs awaiting_def served_def frame_Y_def)

section \<open>What the strand erases has been fulfilled\<close>

lemma queued_erases_append:
  "queued_erases (ts @ us) = queued_erases ts @ queued_erases us"
  by (induction ts rule: queued_erases.induct) simp_all

lemma erases_fulfilled_process_response:
  assumes "erases_fulfilled s" and "uncaught s = None"
  shows "erases_fulfilled (process_response r s)"
proof (cases "uncaught (process_response r s) = None")
  case False
  then show ?thesis by (simp add: erases_fulfilled_def)
next
  case True
  from assms have d: "distinct (queued_erases (strand s))"
    and e: "\<forall>i \<in> set (queued_erases (strand s)).
         \<exists>a. ongoing_calls s i = Some a \<and> a < length (shared s) \<and> shared s ! a \<noteq> not_ready"
    by (simp_all add: erases_fulfilled_def)
  show ?thesis
  proof (cases "ongoing_calls s (get_id r)")
    case None
    then have n: "get_id r \<notin> set (queued_erases (strand s))"
      using e by auto
    show ?thesis
      using None d e n
      by (auto simp: erases_fulfilled_def process_response_def Let_def subscript_def
          new_promise_def strand_post_def set_value_def set_exception_def store_result_def
          queued_erases_append nth_append nth_list_update
          split: option.splits sum.splits if_splits)
  next
    case (Some p)
    have nr: "p < length (shared s) \<and> shared s ! p = not_ready"
      using True Some
      by (auto simp: process_response_def Let_def subscript_def
          strand_post_def set_value_def set_exception_def store_result_def
          split: option.splits sum.splits if_splits)
    then have n: "get_id r \<notin> set (queued_erases (strand s))"
      using e Some by auto
    show ?thesis
      using Some d e n nr
      by (auto simp: erases_fulfilled_def process_response_def Let_def subscript_def
          strand_post_def set_value_def set_exception_def store_result_def
          queued_erases_append nth_list_update
          split: option.splits sum.splits if_splits)
  qed
qed

lemma erases_fulfilled_run_task:
  assumes i: "erases_fulfilled s" and u: "uncaught s = None" and st: "strand s = t # ts"
  shows "erases_fulfilled (run_task t (s\<lparr>strand := ts\<rparr>))"
proof -
  from i u have d: "distinct (queued_erases (strand s))"
    and e: "\<forall>i \<in> set (queued_erases (strand s)).
         \<exists>a. ongoing_calls s i = Some a \<and> a < length (shared s) \<and> shared s ! a \<noteq> not_ready"
    by (simp_all add: erases_fulfilled_def)
  show ?thesis
  proof (cases t)
    case (erase_task j)
    then show ?thesis using d e st u
      by (auto simp: erases_fulfilled_def erase_def promise_dtor_def nth_list_update
          split: option.splits)
  next
    case (call_task buffer idx p)
    then show ?thesis using d e st u
      by (fastforce simp: erases_fulfilled_def insert_call_def impl_write_def promise_dtor_def
          nth_list_update split: option.splits)
  next
    case (notify_task buffer)
    then show ?thesis using d e st u
      by (auto simp: erases_fulfilled_def impl_write_def)
  qed
qed

lemma erases_fulfilled_strand_begin:
  assumes i: "erases_fulfilled s" and u: "uncaught s = None" and st: "strand s = t # ts"
  shows "erases_fulfilled (strand_begin t (s\<lparr>strand := ts\<rparr>))"
proof (cases t)
  case (call_task buffer idx p)
  have "erases_fulfilled (insert_call idx p (s\<lparr>strand := ts\<rparr>))"
    using erases_fulfilled_run_task [OF i u st] call_task
    by (simp add: erases_fulfilled_def impl_write_def)
  then show ?thesis using call_task
    by (simp add: strand_begin_def erases_fulfilled_def)
next
  case (erase_task j)
  then show ?thesis using erases_fulfilled_run_task [OF i u st]
    by (simp add: strand_begin_def)
next
  case (notify_task buffer)
  then show ?thesis using erases_fulfilled_run_task [OF i u st]
    by (simp add: strand_begin_def)
qed

lemma erases_fulfilled_fire:
  assumes f: "fire e s = Some s'" and i: "erases_fulfilled s"
  shows "erases_fulfilled s'"
proof -
  have u: "uncaught s = None" using f by (auto simp: fire_def split: if_splits)
  show ?thesis
  proof (cases e)
    case (connect_done ec)
    then show ?thesis using f i u
      by (auto simp: erases_fulfilled_def fire_def connect_handler_def do_read_def
          split: if_splits)
  next
    case (read_done ec n us)
    then show ?thesis using f i u
      by (auto simp: erases_fulfilled_def fire_def read_begin_def read_failed_def
          buffer_consumed_def split: if_splits)
  next
    case read_loop_turn
    then obtain us where s': "s' = read_turn us s"
      using f by (auto simp: fire_def split: if_splits worker_state.splits)
    show ?thesis
    proof (cases us)
      case Nil
      then show ?thesis using s' i u
        by (simp add: erases_fulfilled_def read_turn_def do_read_def)
    next
      case (Cons x us')
      show ?thesis
      proof (cases x)
        case (decoded r)
        then show ?thesis
          using Cons s' erases_fulfilled_process_response [OF i u, of r]
          by (simp add: erases_fulfilled_def read_turn_def)
      next
        case (decode_throws x)
        then show ?thesis using Cons s'
          by (simp add: erases_fulfilled_def read_turn_def)
      qed
    qed
  next
    case strand_run
    then obtain t ts where st: "strand s = t # ts"
      and s': "s' = strand_begin t (s\<lparr>strand := ts\<rparr>)"
      using f by (auto simp: fire_def split: if_splits list.splits)
    show ?thesis using erases_fulfilled_strand_begin [OF i u st] s' by simp
  next
    case post_turn
    then show ?thesis using f i u
      by (auto simp: erases_fulfilled_def fire_def post_write_def impl_write_def
          split: if_splits option.splits)
  next
    case caller_next_idx
    then show ?thesis using f i u
      by (auto simp: erases_fulfilled_def fire_def get_next_call_idx_def
          increment_call_idx_def split: if_splits)
  next
    case (caller_call buffer idx)
    then show ?thesis using f i u
      by (fastforce simp: erases_fulfilled_def fire_def new_promise_def post_call_def
          strand_post_def queued_erases_append nth_append split: if_splits)
  next
    case (caller_notify buffer)
    then show ?thesis using f i u
      by (auto simp: erases_fulfilled_def fire_def post_def strand_post_def
          queued_erases_append split: if_splits)
  next
    case run_returns
    then show ?thesis using f i u
      by (auto simp: erases_fulfilled_def fire_def split: if_splits)
  next
    case stop
    then show ?thesis using f i u
      by (auto simp: io_stop_def erases_fulfilled_def fire_def split: if_splits)
  next
    case join
    then show ?thesis using f i u
      by (auto simp: erases_fulfilled_def fire_def split: if_splits)
  qed
qed

lemma erases_fulfilled_run:
  "run es s = Some s' \<Longrightarrow> erases_fulfilled s \<Longrightarrow> erases_fulfilled s'"
proof (induction es arbitrary: s)
  case Nil
  then show ?case by simp
next
  case (Cons e es)
  then obtain s1 where f: "fire e s = Some s1" and r: "run es s1 = Some s'"
    by (auto split: option.splits)
  from Cons.IH [OF r erases_fulfilled_fire [OF f Cons.prems(2)]] show ?case .
qed

lemma erases_fulfilled_ctor: "erases_fulfilled (client_ctor a p)"
  by (simp add: erases_fulfilled_def client_ctor_def io_thread_start_def do_connect_def
      impl_ctor_def)

lemma erase_of_fulfilled:
  assumes "erases_fulfilled s" and "uncaught s = None" and "strand s = erase_task i # ts"
  shows "\<exists>a. ongoing_calls s i = Some a \<and> a < length (shared s) \<and> shared s ! a \<noteq> not_ready
           \<and> shared (run_task (erase_task i) (s\<lparr>strand := ts\<rparr>)) = shared s"
  using assms
  by (auto simp: erases_fulfilled_def erase_def promise_dtor_def split: option.splits)

section \<open>Fulfilment\<close>

lemma run_answered:
  "run [caller_next_idx, caller_call ''X'' 1, connect_done no_error, strand_run,
        post_turn, read_done no_error 5 [decoded frame_Y], read_loop_turn, read_loop_turn]
     (client_ctor ''localhost'' 8080) = Some answered"
  by (simp add: client_defs awaiting_def answered_def frame_Y_def)

text \<open>
  C1. Whatever happens to the client, a shared state that has been written (with a result
  or with an error) holds what it holds for ever: it is not written a second time. A
  promise that is no longer in the map of ongoing calls (and is not waiting in the strand
  to be put there) stays out of it, and its shared state is not written any more. In
  particular the loop of the read handler, run on any outcomes of the unpacker, leaves
  every written shared state as it is, duplicates of an id included. And in a client that
  has been constructed and has run in any way, the entry that the strand is about to
  erase holds a promise that is ready, so that removing it writes nothing.
\<close>

theorem fulfilled_at_most_once:
  assumes "run es s = Some s'" and "a < length (shared s)"
  shows "(shared s ! a \<noteq> not_ready \<longrightarrow> shared s' ! a = shared s ! a)
       \<and> ((\<forall>i. ongoing_calls s i \<noteq> Some a) \<and> a \<notin> set (queued_promises (strand s)) \<longrightarrow>
            shared s' ! a = shared s ! a \<and> (\<forall>i. ongoing_calls s' i \<noteq> Some a)
            \<and> a \<notin> set (queued_promises (strand s')))
       \<and> (shared s ! a \<noteq> not_ready \<longrightarrow> shared (read_loop us s) ! a = shared s ! a)
       \<and> (run es0 (client_ctor ad po) = Some t \<and> uncaught t = None
            \<and> strand t = erase_task i # ts \<longrightarrow>
            (\<exists>b. ongoing_calls t i = Some b \<and> b < length (shared t)
                 \<and> shared t ! b \<noteq> not_ready)
            \<and> shared (run_task (erase_task i) (t\<lparr>strand := ts\<rparr>)) = shared t)"
proof (intro conjI impI)
  assume "shared s ! a \<noteq> not_ready"
  then show "shared s' ! a = shared s ! a"
    using kept_run [OF assms(1)] assms(2) by (simp add: kept_def)
next
  assume "shared s ! a \<noteq> not_ready"
  then show "shared (read_loop us s) ! a = shared s ! a"
    using kept_read_loop [of s us] assms(2) by (simp add: kept_def)
next
  assume h: "(\<forall>i. ongoing_calls s i \<noteq> Some a) \<and> a \<notin> set (queued_promises (strand s))"
  then have "unreferenced a s" using assms(2) by (simp add: unreferenced_def)
  from unref_run [OF assms(1) this]
  show "shared s' ! a = shared s ! a" "\<forall>i. ongoing_calls s' i \<noteq> Some a"
    "a \<notin> set (queued_promises (strand s'))"
    by (simp_all add: same_at_def unreferenced_def)
next
  assume h: "run es0 (client_ctor ad po) = Some t \<and> uncaught t = None
            \<and> strand t = erase_task i # ts"
  then have inv: "erases_fulfilled t"
    using erases_fulfilled_run [OF _ erases_fulfilled_ctor] by blast
  from erase_of_fulfilled [OF inv] h
  show "\<exists>b. ongoing_calls t i = Some b \<and> b < length (shared t) \<and> shared t ! b \<noteq> not_ready"
    "shared (run_task (erase_task i) (t\<lparr>strand := ts\<rparr>)) = shared t"
    by blast+
qed

theorem fulfilled_at_most_once_witness:
  "run [read_done no_error 5 [decoded frame_Y, decoded frame_Y], read_loop_turn, read_loop_turn]
       served \<noteq> None
   \<and> (0::nat) < length (shared served)
   \<and> shared served ! 0 = ready_value ''Y''
   \<and> (\<forall>i. ongoing_calls served i \<noteq> Some 0)
   \<and> 0 \<notin> set (queued_promises (strand served))
   \<and> shared (the (run [read_done no_error 5 [decoded frame_Y, decoded frame_Y],
         read_loop_turn, read_loop_turn] served)) ! 0 = ready_value ''Y''
   \<and> uncaught (the (run [read_done no_error 5 [decoded frame_Y, decoded frame_Y],
         read_loop_turn, read_loop_turn] served)) = Some promise_already_satisfied
   \<and> shared (read_loop [decoded frame_Y, decoded frame_Y] served) ! 0 = ready_value ''Y''
   \<and> run [caller_next_idx, caller_call ''X'' 1, connect_done no_error, strand_run,
        post_turn, read_done no_error 5 [decoded frame_Y], read_loop_turn, read_loop_turn]
       (client_ctor ''localhost'' 8080) = Some answered
   \<and> uncaught answered = None \<and> strand answered = [erase_task 1]
   \<and> ongoing_calls answered 1 = Some 0
   \<and> shared (run_task (erase_task 1) (answered\<lparr>strand := []\<rparr>)) = [ready_value ''Y'']"
proof -
  define s' where "s' = (read_loop [decoded frame_Y, decoded frame_Y] (buffer_consumed 5
      (served\<lparr>reads_outstanding := 0\<rparr>)))\<lparr>worker := in_read_loop []\<rparr>"
  have r: "run [read_done no_error 5 [decoded frame_Y, decoded frame_Y], read_loop_turn,
      read_loop_turn] served = Some s'"
    by (simp add: client_defs served_def frame_Y_def s'_def)
  have u: "uncaught s' = Some promise_already_satisfied"
    by (simp add: client_defs served_def frame_Y_def s'_def)
  have l: "(0::nat) < length (shared served)" by (simp add: served_def)
  have y: "shared served ! 0 = ready_value ''Y''" by (simp add: served_def)
  have o: "\<forall>i. ongoing_calls served i \<noteq> Some 0" by (simp add: served_def)
  have q: "0 \<notin> set (queued_promises (strand served))" by (simp add: served_def)
  have a: "uncaught answered = None" "strand answered = [erase_task 1]"
    "ongoing_calls answered 1 = Some 0" "shared answered = [ready_value ''Y'']"
    by (simp_all add: answered_def awaiting_def)
  note t = fulfilled_at_most_once [OF r l, of "[decoded frame_Y, decoded frame_Y]"
      "[caller_next_idx, caller_call ''X'' 1, connect_done no_error, strand_run,
        post_turn, read_done no_error 5 [decoded frame_Y], read_loop_turn, read_loop_turn]"
      "''localhost''" 8080 answered 1 "[]"]
  show ?thesis
    unfolding r using t u l y o q a run_answered by simp
qed

section \<open>What the handlers leave alone\<close>

lemma process_response_frame:
  "state (process_response r s) = state s"
  "pac (process_response r s) = pac s"
  "reads_outstanding (process_response r s) = reads_outstanding s"
  "connects_outstanding (process_response r s) = connects_outstanding s"
  "writer (process_response r s) = writer s"
  "worker (process_response r s) = worker s"
  "io_stopped (process_response r s) = io_stopped s"
  "io_running (process_response r s) = io_running s"
  "posting (process_response r s) = posting s"
  "call_idx (process_response r s) = call_idx s"
  "is_connected (process_response r s) = is_connected s"
  by (auto simp: process_response_def Let_def subscript_def new_promise_def strand_post_def
      set_value_def set_exception_def store_result_def
      split: option.splits sum.splits if_splits)

lemma run_task_frame:
  "state (run_task t s) = state s"
  "pac (run_task t s) = pac s"
  "reads_outstanding (run_task t s) = reads_outstanding s"
  "connects_outstanding (run_task t s) = connects_outstanding s"
  "worker (run_task t s) = worker s"
  "io_stopped (run_task t s) = io_stopped s"
  "io_running (run_task t s) = io_running s"
  by (cases t; auto simp: erase_def insert_call_def impl_write_def promise_dtor_def
      split: option.splits)+

lemma strand_begin_frame:
  "state (strand_begin t s) = state s"
  "pac (strand_begin t s) = pac s"
  "reads_outstanding (strand_begin t s) = reads_outstanding s"
  "connects_outstanding (strand_begin t s) = connects_outstanding s"
  "worker (strand_begin t s) = worker s"
  "io_stopped (strand_begin t s) = io_stopped s"
  "io_running (strand_begin t s) = io_running s"
  by (cases t; auto simp: strand_begin_def erase_def insert_call_def impl_write_def
      promise_dtor_def split: option.splits)+

lemma read_loop_frame:
  "state (read_loop us s) = state s \<and> pac (read_loop us s) = pac s
   \<and> reads_outstanding (read_loop us s) = reads_outstanding s
   \<and> connects_outstanding (read_loop us s) = connects_outstanding s
   \<and> writer (read_loop us s) = writer s \<and> worker (read_loop us s) = worker s
   \<and> io_stopped (read_loop us s) = io_stopped s \<and> io_running (read_loop us s) = io_running s
   \<and> call_idx (read_loop us s) = call_idx s
   \<and> is_connected (read_loop us s) = is_connected s
   \<and> posting (read_loop us s) = posting s"
  by (induction us s rule: read_loop.induct) (simp_all add: Let_def process_response_frame)

lemma read_loop_append:
  "uncaught (read_loop us s) = None \<Longrightarrow> read_loop (us @ vs) s = read_loop vs (read_loop us s)"
  by (induction us s rule: read_loop.induct) (auto simp: Let_def split: if_splits)

section \<open>The turns of the read handler make up the read handler\<close>

lemma process_response_worker:
  "process_response r (s\<lparr>worker := w\<rparr>) = (process_response r s)\<lparr>worker := w\<rparr>"
  by (auto simp: process_response_def Let_def subscript_def new_promise_def strand_post_def
      set_value_def set_exception_def store_result_def
      split: option.splits sum.splits if_splits)

lemma read_turns:
  assumes "uncaught s = None" and "worker s = in_read_loop us" and "io_running s"
  shows "\<exists>k s'. run (replicate k read_loop_turn) s = Some s'
           \<and> s'\<lparr>worker := idle\<rparr> =
               (let t = read_loop us (s\<lparr>worker := idle\<rparr>)
                in if uncaught t = None then do_read t else t)
           \<and> (uncaught s' = None \<longrightarrow> worker s' = idle)"
  using assms
proof (induction us arbitrary: s)
  case Nil
  then have "run (replicate 1 read_loop_turn) s = Some (do_read (s\<lparr>worker := idle\<rparr>))"
    by (simp add: fire_def read_turn_def)
  moreover have "(do_read (s\<lparr>worker := idle\<rparr>))\<lparr>worker := idle\<rparr> =
      (let t = read_loop [] (s\<lparr>worker := idle\<rparr>)
       in if uncaught t = None then do_read t else t)"
    using Nil by (simp add: do_read_def)
  moreover have "worker (do_read (s\<lparr>worker := idle\<rparr>)) = idle"
    by (simp add: do_read_def)
  ultimately show ?case by - (rule exI, rule exI, (rule conjI, assumption)+, simp)
next
  case (Cons u us)
  show ?case
  proof (cases u)
    case (decode_throws e)
    then have "run (replicate 1 read_loop_turn) s = Some (s\<lparr>uncaught := Some e\<rparr>)"
      using Cons.prems by (simp add: fire_def read_turn_def)
    moreover have "(s\<lparr>uncaught := Some e\<rparr>)\<lparr>worker := idle\<rparr> =
      (let t = read_loop (u # us) (s\<lparr>worker := idle\<rparr>)
       in if uncaught t = None then do_read t else t)"
      using decode_throws by simp
    moreover have "uncaught (s\<lparr>uncaught := Some e\<rparr>) \<noteq> None"
      by simp
    ultimately show ?thesis by - (rule exI, rule exI, (rule conjI, assumption)+, simp)
  next
    case (decoded r)
    define s1 where "s1 = (process_response r s)\<lparr>worker := in_read_loop us\<rparr>"
    have f: "fire read_loop_turn s = Some s1"
      using Cons.prems decoded by (simp add: fire_def read_turn_def s1_def)
    have i: "s1\<lparr>worker := idle\<rparr> = process_response r (s\<lparr>worker := idle\<rparr>)"
      by (simp add: s1_def process_response_worker)
    have uw: "uncaught (process_response r (s\<lparr>worker := idle\<rparr>)) = uncaught s1"
      by (simp add: s1_def process_response_worker)
    show ?thesis
    proof (cases "uncaught s1 = None")
      case False
      have "run (replicate 1 read_loop_turn) s = Some s1"
        using f by simp
      moreover have "s1\<lparr>worker := idle\<rparr> =
        (let t = read_loop (u # us) (s\<lparr>worker := idle\<rparr>)
         in if uncaught t = None then do_read t else t)"
        using False decoded i uw by (auto simp: Let_def)
      ultimately show ?thesis using False by - (rule exI, rule exI, (rule conjI, assumption)+, blast)
    next
      case True
      have w: "worker s1 = in_read_loop us" by (simp add: s1_def)
      have g: "io_running s1" using Cons.prems by (simp add: s1_def process_response_frame)
      from Cons.IH [OF True w g] obtain k s' where
        r: "run (replicate k read_loop_turn) s1 = Some s'" and
        e: "s'\<lparr>worker := idle\<rparr> =
            (let t = read_loop us (s1\<lparr>worker := idle\<rparr>)
             in if uncaught t = None then do_read t else t)" and
        wi: "uncaught s' = None \<longrightarrow> worker s' = idle"
        by - (elim exE conjE, rule that)
      have "run (replicate (Suc k) read_loop_turn) s = Some s'"
        using f r by simp
      moreover have "s'\<lparr>worker := idle\<rparr> =
        (let t = read_loop (u # us) (s\<lparr>worker := idle\<rparr>)
         in if uncaught t = None then do_read t else t)"
        using e True decoded i uw by (auto simp: Let_def)
      ultimately show ?thesis using wi by - (rule exI, rule exI, (rule conjI, assumption)+, assumption)
    qed
  qed
qed

lemma read_handler_in_turns:
  assumes "uncaught s = None" and "worker s = idle" and "\<not> io_stopped s"
    and "io_running s" and "posting s = None" and "0 < reads_outstanding s"
  shows "\<exists>k s'. run (read_done ec n us # replicate k read_loop_turn) s = Some s'
           \<and> s'\<lparr>worker := idle\<rparr> =
               read_handler ec n us (s\<lparr>reads_outstanding := reads_outstanding s - 1\<rparr>)"
proof (cases "ec = no_error")
  case False
  define s0 where "s0 = s\<lparr>reads_outstanding := reads_outstanding s - 1\<rparr>"
  have "run (read_done ec n us # replicate 0 read_loop_turn) s = Some (read_failed ec s0)"
    using assms False by (simp add: fire_def read_begin_def s0_def)
  moreover have "(read_failed ec s0)\<lparr>worker := idle\<rparr> = read_handler ec n us s0"
    using assms False by (simp add: read_handler_def read_failed_def s0_def)
  ultimately show ?thesis unfolding s0_def by blast
next
  case True
  define s0 where "s0 = s\<lparr>reads_outstanding := reads_outstanding s - 1\<rparr>"
  define s1 where "s1 = (buffer_consumed n s0)\<lparr>worker := in_read_loop us\<rparr>"
  have f: "fire (read_done ec n us) s = Some s1"
    using assms True by (simp add: fire_def read_begin_def s1_def s0_def)
  have u: "uncaught s1 = None" and w: "worker s1 = in_read_loop us" and g: "io_running s1"
    using assms by (simp_all add: s1_def s0_def buffer_consumed_def)
  from read_turns [OF u w g] obtain k s' where
    r: "run (replicate k read_loop_turn) s1 = Some s'" and
    e: "s'\<lparr>worker := idle\<rparr> =
        (let t = read_loop us (s1\<lparr>worker := idle\<rparr>)
         in if uncaught t = None then do_read t else t)"
    by blast
  have i: "s1\<lparr>worker := idle\<rparr> = buffer_consumed n s0"
    using assms by (simp add: s1_def s0_def buffer_consumed_def)
  have "run (read_done ec n us # replicate k read_loop_turn) s = Some s'"
    using f r by simp
  moreover have "s'\<lparr>worker := idle\<rparr> = read_handler ec n us s0"
    using e i True by (simp add: read_handler_def)
  ultimately show ?thesis unfolding s0_def by blast
qed

section \<open>Responses\<close>


text \<open>
  A response whose id has no entry in the map of ongoing calls: processing it throws
  nothing out of the handler; the entries of the other ids and every shared state that
  was there are as before; what it adds is an entry of its own with a promise of its own,
  and the task that erases this entry; once that task has run the map is the map from
  before. Connection state, writer and the reads outstanding are untouched.
\<close>

lemma unmatched_response_absorbed:
  assumes "ongoing_calls s (get_id r) = None" and "uncaught s = None"
  shows "uncaught (process_response r s) = None
       \<and> (\<forall>j. j \<noteq> get_id r \<longrightarrow> ongoing_calls (process_response r s) j = ongoing_calls s j)
       \<and> length (shared s) < length (shared (process_response r s))
       \<and> (\<forall>a < length (shared s). shared (process_response r s) ! a = shared s ! a)
       \<and> ongoing_calls (process_response r s) (get_id r) = Some (length (shared s))
       \<and> strand (process_response r s) = strand s @ [erase_task (get_id r)]
       \<and> ongoing_calls (run_task (erase_task (get_id r)) (process_response r s)) = ongoing_calls s
       \<and> (\<forall>a < length (shared s).
             shared (run_task (erase_task (get_id r)) (process_response r s)) ! a = shared s ! a)
       \<and> state (process_response r s) = state s
       \<and> writer (process_response r s) = writer s
       \<and> worker (process_response r s) = worker s
       \<and> reads_outstanding (process_response r s) = reads_outstanding s"
  using assms
  by (auto simp: process_response_def Let_def subscript_def new_promise_def strand_post_def
      set_value_def set_exception_def store_result_def erase_def promise_dtor_def
      nth_append nth_list_update
      split: option.splits sum.splits if_splits)

text \<open>
  A response whose id has an entry with a promise that is ready, which is the case from
  the moment a response with this id has been processed until the strand has run the
  task that erases the entry: \<open>set_value\<close> throws, or the \<open>runtime_error\<close> of an error
  response is thrown, \<open>set_exception\<close> in the \<open>catch\<close> block throws
  \<open>promise_already_satisfied\<close>, and this exception leaves the read handler.
\<close>

lemma stale_entry_throws:
  assumes "ongoing_calls s (get_id r) = Some p" and "p < length (shared s)"
    and "shared s ! p \<noteq> not_ready"
  shows "uncaught (process_response r s) = Some promise_already_satisfied
       \<and> shared (process_response r s) = shared s"
  using assms
  by (auto simp: process_response_def Let_def subscript_def strand_post_def
      set_value_def set_exception_def store_result_def
      split: option.splits sum.splits if_splits)

text \<open>
  C3. The server sends a response with id 7, which no call has, twice in one read. The
  first is taken in without harm: it gets an entry and a promise of its own, and the
  task that erases the entry is posted. The second has no call either, and finds the entry
  of the first, which the strand has not erased yet: \<open>set_value\<close> throws, \<open>set_exception\<close>
  in the \<open>catch\<close> block throws again, and the exception leaves the read handler and
  \<open>io_.run()\<close>. No handler and no task runs after that: the next read is not started, and
  the response to call 1 that came in the same read is not delivered. The same happens
  when the duplicate is that of the response to call 1.
\<close>

theorem duplicate_unmatched_terminates:
  "run [caller_next_idx, caller_call ''X'' 1, connect_done no_error, strand_run, post_turn]
     (client_ctor ''localhost'' 8080) = Some awaiting
   \<and> ongoing_calls awaiting (get_id frame_7) = None
   \<and> uncaught (read_handler no_error 8 [decoded frame_7] awaiting) = None
   \<and> shared (read_handler no_error 13 [decoded frame_7, decoded frame_Y] awaiting) ! 0
       = ready_value ''Y''
   \<and> run [read_done no_error 8 [decoded frame_7, decoded frame_7], read_loop_turn,
         read_loop_turn] awaiting = Some crashed
   \<and> uncaught crashed = Some promise_already_satisfied
   \<and> reads_outstanding crashed = 0
   \<and> fire read_loop_turn crashed = None \<and> fire strand_run crashed = None
   \<and> fire run_returns crashed = None \<and> client_dtor crashed = None
   \<and> uncaught (read_handler no_error 8 [decoded frame_7, decoded frame_7] awaiting)
       = Some promise_already_satisfied
   \<and> reads_outstanding (read_handler no_error 8 [decoded frame_7, decoded frame_7]
         (awaiting\<lparr>reads_outstanding := 0\<rparr>)) = 0
   \<and> shared (read_handler no_error 13 [decoded frame_7, decoded frame_7, decoded frame_Y]
         awaiting) ! 0 = not_ready
   \<and> uncaught (read_handler no_error 10 [decoded frame_Y, decoded frame_Y] awaiting)
       = Some promise_already_satisfied"
proof -
  have a: "run [caller_next_idx, caller_call ''X'' 1, connect_done no_error, strand_run,
      post_turn] (client_ctor ''localhost'' 8080) = Some awaiting"
    using run_awaiting by (simp add: a_client_def)
  have b: "run [read_done no_error 8 [decoded frame_7, decoded frame_7], read_loop_turn,
         read_loop_turn] awaiting = Some crashed"
    by (simp add: client_defs awaiting_def frame_7_def crashed_def)
  have c: "uncaught crashed = Some promise_already_satisfied" "reads_outstanding crashed = 0"
    "fire read_loop_turn crashed = None" "fire strand_run crashed = None"
    "fire run_returns crashed = None" "client_dtor crashed = None"
    by (simp_all add: fire_def client_dtor_def crashed_def)
  have d: "ongoing_calls awaiting (get_id frame_7) = None
   \<and> uncaught (read_handler no_error 8 [decoded frame_7] awaiting) = None
   \<and> shared (read_handler no_error 13 [decoded frame_7, decoded frame_Y] awaiting) ! 0
       = ready_value ''Y''
   \<and> uncaught (read_handler no_error 8 [decoded frame_7, decoded frame_7] awaiting)
       = Some promise_already_satisfied
   \<and> reads_outstanding (read_handler no_error 8 [decoded frame_7, decoded frame_7]
         (awaiting\<lparr>reads_outstanding := 0\<rparr>)) = 0
   \<and> shared (read_handler no_error 13 [decoded frame_7, decoded frame_7, decoded frame_Y]
         awaiting) ! 0 = not_ready
   \<and> uncaught (read_handler no_error 10 [decoded frame_Y, decoded frame_Y] awaiting)
       = Some promise_already_satisfied"
    by (simp add: client_defs read_handler_def awaiting_def frame_7_def frame_Y_def)
  show ?thesis using a b c d by simp
qed

text \<open>
  C7. A response whose id has an entry with a promise that is not ready: when the
  response carries an error, the promise gets the \<open>runtime_error\<close> made of the error
  object the server sent; otherwise it gets the result. No other shared state changes,
  the map is as before, and nothing is thrown out of the handler.
\<close>

theorem matched_response_fulfils:
  assumes "ongoing_calls s (get_id r) = Some p" and "p < length (shared s)"
    and "shared s ! p = not_ready"
  shows "shared (process_response r s) ! p =
           (case get_error r of
              Some e \<Rightarrow> ready_exception (runtime_error ''callme: error during RPC call: {}'' e)
            | None \<Rightarrow> ready_value (get_result r))
       \<and> length (shared (process_response r s)) = length (shared s)
       \<and> (\<forall>q. q \<noteq> p \<longrightarrow> shared (process_response r s) ! q = shared s ! q)
       \<and> ongoing_calls (process_response r s) = ongoing_calls s
       \<and> uncaught (process_response r s) = uncaught s
       \<and> strand (process_response r s) = strand s @ [erase_task (get_id r)]"
  using assms
  by (auto simp: process_response_def Let_def subscript_def strand_post_def
      set_value_def set_exception_def store_result_def
      split: option.splits sum.splits if_splits)

theorem matched_response_fulfils_witness:
  "ongoing_calls awaiting (get_id frame_Y) = Some 0
   \<and> ongoing_calls awaiting (get_id frame_bad_args) = Some 0
   \<and> (0::nat) < length (shared awaiting) \<and> shared awaiting ! 0 = not_ready
   \<and> shared (process_response frame_Y awaiting) ! 0 = ready_value ''Y''
   \<and> shared (process_response frame_bad_args awaiting) ! 0
       = ready_exception (runtime_error ''callme: error during RPC call: {}'' ''bad args'')
   \<and> uncaught (process_response frame_bad_args awaiting) = None"
proof -
  have h: "ongoing_calls awaiting (get_id frame_Y) = Some 0"
    "(0::nat) < length (shared awaiting)" "shared awaiting ! 0 = not_ready"
    by (simp_all add: awaiting_def frame_Y_def)
  have g: "ongoing_calls awaiting (get_id frame_bad_args) = Some 0"
    by (simp add: awaiting_def frame_bad_args_def)
  have u: "uncaught awaiting = None" by (simp add: awaiting_def)
  show ?thesis
    using matched_response_fulfils [OF h] matched_response_fulfils [OF g h(2) h(3)] h g u
    by (simp add: frame_Y_def frame_bad_args_def)
qed

section \<open>Reading\<close>

text \<open>
  C5. In state \<open>connected\<close>, the read handler called with \<open>eof\<close> leaves the state
  \<open>disconnected\<close>, with \<open>connection_reset\<close> it leaves \<open>reset\<close>, with any other error
  and with no error it leaves \<open>connected\<close>; so does the handler taken in turns.
\<close>

theorem read_sets_connection_state:
  assumes "state s = connected"
  shows "state (read_handler ec n us s) =
           (case ec of no_error \<Rightarrow> connected | eof \<Rightarrow> disconnected
            | connection_reset \<Rightarrow> reset | other_error k \<Rightarrow> connected)
       \<and> (\<forall>s'. fire (read_done ec n us) s = Some s' \<longrightarrow>
             state s' = (case ec of no_error \<Rightarrow> connected | eof \<Rightarrow> disconnected
                         | connection_reset \<Rightarrow> reset | other_error k \<Rightarrow> connected))
       \<and> (\<forall>s'. fire read_loop_turn s = Some s' \<longrightarrow> state s' = connected)"
proof (intro conjI allI impI)
  show "state (read_handler ec n us s) =
           (case ec of no_error \<Rightarrow> connected | eof \<Rightarrow> disconnected
            | connection_reset \<Rightarrow> reset | other_error k \<Rightarrow> connected)"
    using assms
    by (cases ec) (simp_all add: read_handler_def Let_def read_failed_def do_read_def
        read_loop_frame buffer_consumed_def)
next
  fix s' assume "fire (read_done ec n us) s = Some s'"
  then show "state s' = (case ec of no_error \<Rightarrow> connected | eof \<Rightarrow> disconnected
                         | connection_reset \<Rightarrow> reset | other_error k \<Rightarrow> connected)"
    using assms
    by (cases ec) (auto simp: fire_def read_begin_def read_failed_def buffer_consumed_def
        split: if_splits)
next
  fix s' assume "fire read_loop_turn s = Some s'"
  then show "state s' = connected"
    using assms
    by (auto simp: fire_def read_turn_def do_read_def process_response_frame
        split: if_splits worker_state.splits list.splits unpacked.splits)
qed

theorem read_sets_connection_state_witness:
  "state awaiting = connected
   \<and> state (read_handler eof 0 [] awaiting) = disconnected
   \<and> state (read_handler connection_reset 0 [] awaiting) = reset
   \<and> state (read_handler (other_error 110) 0 [] awaiting) = connected
   \<and> state (read_handler no_error 5 [decoded frame_Y] awaiting) = connected
   \<and> fire (read_done eof 0 []) awaiting = Some hung_up
   \<and> state hung_up = disconnected
   \<and> fire read_loop_turn stopping \<noteq> None
   \<and> state (the (fire read_loop_turn stopping)) = connected"
proof -
  have c: "state awaiting = connected" "state stopping = connected"
    by (simp_all add: awaiting_def stopping_def)
  have f: "fire (read_done eof 0 []) awaiting = Some hung_up"
    by (simp add: fire_def read_begin_def read_failed_def awaiting_def hung_up_def)
  have g: "fire read_loop_turn stopping \<noteq> None"
    by (simp add: fire_def awaiting_def stopping_def)
  show ?thesis
    using read_sets_connection_state [OF c(1), of eof 0 "[]"]
      read_sets_connection_state [OF c(1), of connection_reset 0 "[]"]
      read_sets_connection_state [OF c(1), of "other_error 110" 0 "[]"]
      read_sets_connection_state [OF c(1), of no_error 5 "[decoded frame_Y]"]
      read_sets_connection_state [OF c(2)] c f g
    by auto
qed

text \<open>
  C6, as the code has it. The read handler catches nothing that the unpacker or the
  construction of the response throws. When the outcomes before it have been processed
  without an exception, such an exception leaves the handler: the state is the one
  reached before it, the next read is not started. A read without such an outcome, and
  without an exception from a promise, ends with the next read started.
\<close>

theorem decode_error_leaves_handler:
  assumes "uncaught (read_loop us (buffer_consumed n s)) = None"
  shows "read_handler no_error n (us @ decode_throws e # vs) s
           = (read_loop us (buffer_consumed n s))\<lparr>uncaught := Some e\<rparr>
       \<and> uncaught (read_handler no_error n (us @ decode_throws e # vs) s) = Some e
       \<and> reads_outstanding (read_handler no_error n (us @ decode_throws e # vs) s)
           = reads_outstanding s
       \<and> read_handler no_error n us s = do_read (read_loop us (buffer_consumed n s))"
  using assms
  by (simp add: read_handler_def Let_def read_loop_append read_loop_frame buffer_consumed_def)

theorem decode_error_leaves_handler_witness:
  "uncaught (read_loop [decoded frame_Y] (buffer_consumed 5 awaiting)) = None
   \<and> uncaught (read_handler no_error 5 [decoded frame_Y, decode_throws (unpack_error ''parse error'')]
        awaiting) = Some (unpack_error ''parse error'')
   \<and> shared (read_handler no_error 5 [decoded frame_Y, decode_throws (unpack_error ''parse error'')]
        awaiting) = [ready_value ''Y'']
   \<and> reads_outstanding (read_handler no_error 5
        [decoded frame_Y, decode_throws (unpack_error ''parse error'')] awaiting) = 1
   \<and> reads_outstanding (read_handler no_error 5 [decoded frame_Y] awaiting) = 2"
proof -
  have h: "uncaught (read_loop [decoded frame_Y] (buffer_consumed 5 awaiting)) = None"
    by (simp add: client_defs awaiting_def frame_Y_def)
  have s: "shared (read_loop [decoded frame_Y] (buffer_consumed 5 awaiting)) = [ready_value ''Y'']"
    by (simp add: client_defs awaiting_def frame_Y_def)
  have r: "reads_outstanding awaiting = 1" by (simp add: awaiting_def)
  have d: "reads_outstanding (do_read (read_loop [decoded frame_Y] (buffer_consumed 5 awaiting)))
      = 2"
    using read_loop_frame [of "[decoded frame_Y]" "buffer_consumed 5 awaiting"] r
    by (simp add: do_read_def buffer_consumed_def del: read_loop.simps)
  show ?thesis
    using decode_error_leaves_handler [OF h, of "unpack_error ''parse error''" "[]"] h s r d
      read_loop_frame [of "[decoded frame_Y]" "buffer_consumed 5 awaiting"]
    by (simp add: buffer_consumed_def del: read_loop.simps)
qed

text \<open>
  The claim C6 as stated fails: on an awaiting client, a read whose bytes the unpacker
  rejects ends with the exception outside the handler, and no event takes place any more.
\<close>

theorem decode_error_counterexample:
  "uncaught awaiting = None
   \<and> uncaught (read_handler no_error 1 [decode_throws (unpack_error ''parse error'')] awaiting)
       = Some (unpack_error ''parse error'')
   \<and> run [read_done no_error 1 [decode_throws (unpack_error ''parse error'')], read_loop_turn]
       awaiting \<noteq> None
   \<and> uncaught (the (run [read_done no_error 1 [decode_throws (unpack_error ''parse error'')],
       read_loop_turn] awaiting)) = Some (unpack_error ''parse error'')
   \<and> fire strand_run (the (run [read_done no_error 1
       [decode_throws (unpack_error ''parse error'')], read_loop_turn] awaiting)) = None
   \<and> fire (read_done no_error 1 []) (the (run [read_done no_error 1
       [decode_throws (unpack_error ''parse error'')], read_loop_turn] awaiting)) = None"
  by (simp add: client_defs read_handler_def awaiting_def)

section \<open>The read loop ends with the first error\<close>

lemma one_source_ctor: "one_source (client_ctor a p)"
  by (simp add: one_source_def client_ctor_def io_thread_start_def do_connect_def impl_ctor_def)

lemma one_source_fire:
  assumes f: "fire e s = Some s'" and i: "one_source s"
  shows "one_source s'"
proof (cases e)
  case (connect_done ec)
  then show ?thesis using f i
    by (auto simp: one_source_def fire_def connect_handler_def do_read_def split: if_splits)
next
  case (read_done ec n us)
  then show ?thesis using f i
    by (auto simp: one_source_def fire_def read_begin_def read_failed_def buffer_consumed_def
        split: if_splits)
next
  case read_loop_turn
  then show ?thesis using f i
    by (auto simp: one_source_def fire_def read_turn_def do_read_def process_response_frame
        split: if_splits worker_state.splits list.splits unpacked.splits)
next
  case strand_run
  then show ?thesis using f i
    by (auto simp: one_source_def fire_def strand_begin_frame split: if_splits list.splits)
next
  case post_turn
  then show ?thesis using f i
    by (auto simp: one_source_def fire_def post_write_def impl_write_def split: if_splits option.splits)
next
  case caller_next_idx
  then show ?thesis using f i
    by (auto simp: one_source_def fire_def get_next_call_idx_def increment_call_idx_def
        split: if_splits)
next
  case (caller_call buffer idx)
  then show ?thesis using f i
    by (auto simp: one_source_def fire_def new_promise_def post_call_def strand_post_def
        split: if_splits)
next
  case (caller_notify buffer)
  then show ?thesis using f i
    by (auto simp: one_source_def fire_def post_def strand_post_def split: if_splits)
next
  case stop
  then show ?thesis using f i by (auto simp: io_stop_def one_source_def fire_def split: if_splits)
next
  case run_returns
  then show ?thesis using f i by (auto simp: one_source_def fire_def split: if_splits)
next
  case join
  then show ?thesis using f i by (auto simp: one_source_def fire_def split: if_splits)
qed

lemma one_source_run: "run es s = Some s' \<Longrightarrow> one_source s \<Longrightarrow> one_source s'"
proof (induction es arbitrary: s)
  case Nil
  then show ?case by simp
next
  case (Cons e es)
  then obtain s1 where f: "fire e s = Some s1" and r: "run es s1 = Some s'"
    by (auto split: option.splits)
  from Cons.IH [OF r one_source_fire [OF f Cons.prems(2)]] show ?case .
qed

lemma read_over_fire:
  assumes f: "fire e s = Some s'" and i: "read_over s"
  shows "read_over s' \<and> pac s' = pac s \<and> state s' = state s
         \<and> (e \<noteq> strand_run \<longrightarrow> ongoing_calls s' = ongoing_calls s)"
proof (cases e)
  case (connect_done ec)
  then show ?thesis using f i by (auto simp: read_over_def fire_def split: if_splits)
next
  case (read_done ec n us)
  then show ?thesis using f i by (auto simp: read_over_def fire_def split: if_splits)
next
  case read_loop_turn
  then show ?thesis using f i
    by (auto simp: read_over_def fire_def split: if_splits worker_state.splits)
next
  case strand_run
  then show ?thesis using f i
    by (auto simp: read_over_def fire_def strand_begin_frame split: if_splits list.splits)
next
  case post_turn
  then show ?thesis using f i
    by (auto simp: read_over_def fire_def post_write_def impl_write_def split: if_splits option.splits)
next
  case caller_next_idx
  then show ?thesis using f i
    by (auto simp: read_over_def fire_def get_next_call_idx_def increment_call_idx_def
        split: if_splits)
next
  case (caller_call buffer idx)
  then show ?thesis using f i
    by (auto simp: read_over_def fire_def new_promise_def post_call_def strand_post_def
        split: if_splits)
next
  case (caller_notify buffer)
  then show ?thesis using f i
    by (auto simp: read_over_def fire_def post_def strand_post_def split: if_splits)
next
  case stop
  then show ?thesis using f i by (auto simp: io_stop_def read_over_def fire_def split: if_splits)
next
  case run_returns
  then show ?thesis using f i by (auto simp: read_over_def fire_def split: if_splits)
next
  case join
  then show ?thesis using f i by (auto simp: read_over_def fire_def split: if_splits)
qed

lemma read_over_run:
  "run es s = Some s' \<Longrightarrow> read_over s \<Longrightarrow>
     read_over s' \<and> pac s' = pac s \<and> state s' = state s
     \<and> (strand_run \<notin> set es \<longrightarrow> ongoing_calls s' = ongoing_calls s)"
proof (induction es arbitrary: s)
  case Nil
  then show ?case by simp
next
  case (Cons e es)
  then obtain s1 where f: "fire e s = Some s1" and r: "run es s1 = Some s'"
    by (auto split: option.splits)
  from read_over_fire [OF f Cons.prems(2)] Cons.IH [OF r] show ?case by auto
qed

lemma read_over_disabled:
  "read_over s \<Longrightarrow>
     fire (read_done ec n us) s = None \<and> fire read_loop_turn s = None
     \<and> fire (connect_done ec) s = None"
  by (auto simp: read_over_def fire_def)

lemma read_failed_over:
  assumes "one_source s" and "fire (read_done ec n us) s = Some s1" and "ec \<noteq> no_error"
  shows "read_over s1 \<and> ongoing_calls s1 = ongoing_calls s \<and> strand s1 = strand s
         \<and> shared s1 = shared s \<and> pac s1 = pac s \<and> writer s1 = writer s
         \<and> reads_outstanding s = 1 \<and> reads_outstanding s1 = 0"
  using assms
  by (auto simp: one_source_def read_over_def fire_def read_begin_def read_failed_def
      split: if_splits worker_state.splits)

text \<open>
  C9. In a client that has been constructed and has run in any way, let a read complete
  with an error. Its handler starts no read and leaves the map, the strand, the shared
  states and the unpacker alone. From then on, whatever happens, no read is outstanding,
  the worker is not in the read handler, neither the read handler nor the connect handler
  can be called, the unpacker gets no byte, the connection state stays, and the map
  changes only when the strand runs a task. Of the branches of the read handler only the
  one for no error starts a read, and only when no exception has left it.
\<close>

theorem read_loop_not_rearmed:
  assumes "run es0 (client_ctor a p) = Some s"
    and "fire (read_done ec n us) s = Some s1" and "ec \<noteq> no_error"
    and "run es s1 = Some s2"
  shows "reads_outstanding s1 = 0 \<and> ongoing_calls s1 = ongoing_calls s
       \<and> strand s1 = strand s \<and> shared s1 = shared s \<and> pac s1 = pac s
       \<and> reads_outstanding s2 = 0 \<and> connects_outstanding s2 = 0 \<and> worker s2 = idle
       \<and> fire (read_done ec' n' us') s2 = None \<and> fire read_loop_turn s2 = None
       \<and> fire (connect_done ec') s2 = None
       \<and> pac s2 = pac s \<and> state s2 = state s1
       \<and> (strand_run \<notin> set es \<longrightarrow> ongoing_calls s2 = ongoing_calls s)
       \<and> reads_outstanding (read_handler ec n us s) = reads_outstanding s
       \<and> reads_outstanding (read_handler no_error n us s) =
           (if uncaught (read_handler no_error n us s) = None
            then reads_outstanding s + 1 else reads_outstanding s)"
proof -
  have i: "one_source s"
    using one_source_run [OF assms(1) one_source_ctor] .
  note a = read_failed_over [OF i assms(2) assms(3)]
  then have o: "read_over s1" by blast
  note b = read_over_run [OF assms(4) o]
  then have o2: "read_over s2" by blast
  note c = read_over_disabled [OF o2, of ec' n' us']
  have d: "reads_outstanding (read_handler ec n us s) = reads_outstanding s"
    using assms(3) by (simp add: read_handler_def read_failed_def)
  have e: "reads_outstanding (read_handler no_error n us s) =
           (if uncaught (read_handler no_error n us s) = None
            then reads_outstanding s + 1 else reads_outstanding s)"
    by (simp add: read_handler_def Let_def do_read_def buffer_consumed_def read_loop_frame)
  show ?thesis
    using a b c d e o o2 by (simp add: read_over_def)
qed

theorem read_loop_not_rearmed_witness:
  "run [caller_next_idx, caller_call ''X'' 1, connect_done no_error, strand_run, post_turn]
       (client_ctor ''localhost'' 8080) = Some awaiting
   \<and> fire (read_done eof 0 []) awaiting = Some hung_up
   \<and> eof \<noteq> no_error
   \<and> run [caller_notify ''N'', strand_run] hung_up = Some (hung_up\<lparr>writer := [''X'', ''N'']\<rparr>)
   \<and> reads_outstanding hung_up = 0
   \<and> reads_outstanding (hung_up\<lparr>writer := [''X'', ''N'']\<rparr>) = 0
   \<and> state (hung_up\<lparr>writer := [''X'', ''N'']\<rparr>) = disconnected
   \<and> fire (read_done no_error 5 [decoded frame_Y]) (hung_up\<lparr>writer := [''X'', ''N'']\<rparr>) = None
   \<and> fire read_loop_turn (hung_up\<lparr>writer := [''X'', ''N'']\<rparr>) = None"
proof -
  have r0: "run [caller_next_idx, caller_call ''X'' 1, connect_done no_error, strand_run,
       post_turn] (client_ctor ''localhost'' 8080) = Some awaiting"
    using run_awaiting by (simp add: a_client_def)
  have f: "fire (read_done eof 0 []) awaiting = Some hung_up"
    by (simp add: fire_def read_begin_def read_failed_def awaiting_def hung_up_def)
  have n: "eof \<noteq> no_error" by simp
  have r: "run [caller_notify ''N'', strand_run] hung_up = Some (hung_up\<lparr>writer := [''X'', ''N'']\<rparr>)"
    by (simp add: client_defs awaiting_def hung_up_def)
  have st: "state hung_up = disconnected" by (simp add: hung_up_def)
  show ?thesis
    using read_loop_not_rearmed [OF r0 f n r, of no_error 5 "[decoded frame_Y]"] r0 f r st
    by simp
qed

section \<open>Registration\<close>






text \<open>The two turns of the lambda that posts a call make up its body.\<close>

lemma call_task_in_turns:
  "post_write buffer (strand_begin (call_task buffer idx p) s)
     = (run_task (call_task buffer idx p) s)\<lparr>posting := None\<rparr>"
  by (simp add: post_write_def strand_begin_def impl_write_def)





section \<open>Shutdown\<close>








lemma impl_dtor_shared:
  "length (shared (impl_dtor s)) = length (shared s)"
  "a < length (shared s) \<Longrightarrow>
     shared (impl_dtor s) ! a =
       (if shared s ! a = not_ready \<and> a \<in> ran (ongoing_calls s)
        then ready_exception broken_promise else shared s ! a)"
  by (simp_all add: impl_dtor_def)











end
